theory Spec2Isabelle
  imports Main
begin

section \<open>Data model\<close>

text \<open>
  The cache of package \<open>lru\<close>: a Go map from keys to pointers to list nodes, and an
  intrusive doubly linked list of those nodes. Pointers are addresses into an explicit
  store; \<open>None\<close> is the nil pointer. Go is memory safe, so every address holds a node:
  the store is a total function, and \<open>brk\<close> is the next address the allocator hands out.

  A \<open>time.Time\<close> is a number of nanoseconds counted from the zero instant of the type,
  so the zero value \<open>var expiry time.Time\<close> is \<open>0\<close> and \<open>t.Before(u)\<close> is \<open>t < u\<close>.
\<close>

type_synonym addr = nat
type_synonym time = int

record ('k, 'v) cache =
  key :: 'k
  value_c :: 'v
  prev :: "addr option"
  next_c :: "addr option"
  ttl :: time

record ('k, 'v) lru =
  cache_l :: "'k \<rightharpoonup> addr"
  size_l :: int
  withExpiry :: bool
  head :: "addr option"
  tail :: "addr option"
  length_l :: int
  heap :: "addr \<Rightarrow> ('k, 'v) cache"
  brk :: addr

datatype error = NilDereference

definition zeroTime :: time where
  "zeroTime = 0"

definition Before :: "time \<Rightarrow> time \<Rightarrow> bool" where
  "Before t u = (t < u)"

section \<open>Field assignments through a pointer\<close>

definition set_prev :: "addr \<Rightarrow> addr option \<Rightarrow> ('k, 'v) lru \<Rightarrow> ('k, 'v) lru" where
  "set_prev a p l = l\<lparr>heap := (heap l)(a := (heap l a)\<lparr>prev := p\<rparr>)\<rparr>"

definition set_next :: "addr \<Rightarrow> addr option \<Rightarrow> ('k, 'v) lru \<Rightarrow> ('k, 'v) lru" where
  "set_next a n l = l\<lparr>heap := (heap l)(a := (heap l a)\<lparr>next_c := n\<rparr>)\<rparr>"

definition set_value :: "addr \<Rightarrow> 'v \<Rightarrow> ('k, 'v) lru \<Rightarrow> ('k, 'v) lru" where
  "set_value a v l = l\<lparr>heap := (heap l)(a := (heap l a)\<lparr>value_c := v\<rparr>)\<rparr>"

definition set_ttl :: "addr \<Rightarrow> time \<Rightarrow> ('k, 'v) lru \<Rightarrow> ('k, 'v) lru" where
  "set_ttl a t l = l\<lparr>heap := (heap l)(a := (heap l a)\<lparr>ttl := t\<rparr>)\<rparr>"

section \<open>Construction\<close>

text \<open>
  \<open>New\<close> and \<open>NewWithExpiry\<close> of \<open>lru.go\<close>. Neither looks at \<open>size\<close>. The store of
  a new cache holds no reachable node; \<open>junk\<close> is what the unallocated addresses hold.
\<close>

definition New :: "('k, 'v) cache \<Rightarrow> int \<Rightarrow> ('k, 'v) lru" where
  "New junk sz =
     \<lparr>cache_l = Map.empty, size_l = sz, withExpiry = False, head = None, tail = None,
      length_l = 0, heap = (\<lambda>_. junk), brk = 0\<rparr>"

definition NewWithExpiry :: "('k, 'v) cache \<Rightarrow> int \<Rightarrow> ('k, 'v) lru" where
  "NewWithExpiry junk sz =
     \<lparr>cache_l = Map.empty, size_l = sz, withExpiry = True, head = None, tail = None,
      length_l = 0, heap = (\<lambda>_. junk), brk = 0\<rparr>"

section \<open>Operations\<close>

definition Contains :: "('k, 'v) lru \<Rightarrow> 'k \<Rightarrow> bool" where
  "Contains l k = (case cache_l l k of None \<Rightarrow> False | Some _ \<Rightarrow> True)"

text \<open>
  \<open>del\<close>: the branch \<open>c.prev == nil\<close> of the \<open>else\<close> part is only entered with
  \<open>c.next\<close> not nil, so no dereference of \<open>del\<close> can fail. Each statement reads the
  store left by the statement before it.
\<close>

definition del :: "('k, 'v) lru \<Rightarrow> 'k \<Rightarrow> ('k, 'v) lru \<times> bool" where
  "del l k =
     (if \<not> Contains l k then (l, False)
      else
        let c = the (cache_l l k);
            l1 =
              (if prev (heap l c) = None \<and> next_c (heap l c) = None
               then l\<lparr>head := None, tail := None\<rparr>
               else if prev (heap l c) = None then
                 (let la = set_prev (the (next_c (heap l c))) None l
                  in la\<lparr>head := next_c (heap la c)\<rparr>)
               else if next_c (heap l c) = None then
                 (let la = set_next (the (prev (heap l c))) None l
                  in la\<lparr>tail := prev (heap la c)\<rparr>)
               else
                 (let la = set_prev (the (next_c (heap l c))) (prev (heap l c)) l
                  in set_next (the (prev (heap la c))) (next_c (heap la c)) la));
            l2 = l1\<lparr>cache_l := (cache_l l1)(k := None)\<rparr>;
            l3 = l2\<lparr>length_l := length_l l2 - 1\<rparr>
        in (l3, True))"

definition Del :: "('k, 'v) lru \<Rightarrow> 'k \<Rightarrow> ('k, 'v) lru \<times> bool" where
  "Del l k = del l k"

text \<open>
  The unlinking part of \<open>set\<close> for a resident key, lines 78 to 89. With \<open>c.prev == nil\<close>
  and \<open>c.next == nil\<close> the statement \<open>c.next.prev = nil\<close> dereferences nil.
\<close>

definition set_unlink :: "('k, 'v) lru \<Rightarrow> addr \<Rightarrow> error + ('k, 'v) lru" where
  "set_unlink l c =
     (if Some c \<noteq> head l then
        (if prev (heap l c) = None then
           (case next_c (heap l c) of
              None \<Rightarrow> Inl NilDereference
            | Some n \<Rightarrow>
                (let la = set_prev n None l
                 in Inr (la\<lparr>head := next_c (heap la c)\<rparr>)))
         else if next_c (heap l c) = None then
           (let la = set_next (the (prev (heap l c))) None l
            in Inr (la\<lparr>tail := prev (heap la c)\<rparr>))
         else
           (let la = set_prev (the (next_c (heap l c))) (prev (heap l c)) l
            in Inr (set_next (the (prev (heap la c))) (next_c (heap la c)) la)))
      else Inr l)"

definition set_resident ::
  "('k, 'v) lru \<Rightarrow> 'k \<Rightarrow> addr \<Rightarrow> 'v \<Rightarrow> time \<Rightarrow> error + ('k, 'v) lru" where
  "set_resident l k c v expiry =
     (case set_unlink l c of
        Inl e \<Rightarrow> Inl e
      | Inr l1 \<Rightarrow>
          (let l2 = set_prev c None l1;
               l3 = set_next c (head l2) l2;
               l4 = set_value c v l3;
               l5 = set_ttl c expiry l4;
               l6 = l5\<lparr>head := Some c\<rparr>
           in Inr (l6\<lparr>cache_l := (cache_l l6)(k \<mapsto> c)\<rparr>)))"

text \<open>Lines 103 to 105: the eviction; \<open>l.tail.key\<close> dereferences nil on an empty list.\<close>

definition set_evict :: "('k, 'v) lru \<Rightarrow> error + ('k, 'v) lru" where
  "set_evict l =
     (if length_l l \<ge> size_l l then
        (case tail l of
           None \<Rightarrow> Inl NilDereference
         | Some t \<Rightarrow> Inr (fst (del l (key (heap l t)))))
      else Inr l)"

text \<open>Lines 107 to 117: a new node at a fresh address becomes the head.\<close>

definition set_insert :: "('k, 'v) lru \<Rightarrow> 'k \<Rightarrow> 'v \<Rightarrow> time \<Rightarrow> ('k, 'v) lru" where
  "set_insert l k v expiry =
     (let c = brk l;
          l1 = l\<lparr>heap := (heap l)
                  (c := \<lparr>key = k, value_c = v, prev = None, next_c = head l, ttl = expiry\<rparr>),
                brk := Suc c\<rparr>;
          l2 = (case head l1 of
                  None \<Rightarrow> l1\<lparr>tail := Some c\<rparr>
                | Some h \<Rightarrow> set_prev h (Some c) l1);
          l3 = l2\<lparr>head := Some c\<rparr>;
          l4 = l3\<lparr>cache_l := (cache_l l3)(k \<mapsto> c)\<rparr>
      in l4\<lparr>length_l := length_l l4 + 1\<rparr>)"

definition set_l :: "('k, 'v) lru \<Rightarrow> 'k \<Rightarrow> 'v \<Rightarrow> time \<Rightarrow> error + ('k, 'v) lru" where
  "set_l l k v expiry =
     (case cache_l l k of
        Some c \<Rightarrow> set_resident l k c v expiry
      | None \<Rightarrow>
          (case set_evict l of
             Inl e \<Rightarrow> Inl e
           | Inr l1 \<Rightarrow> Inr (set_insert l1 k v expiry)))"

definition Set :: "('k, 'v) lru \<Rightarrow> 'k \<Rightarrow> 'v \<Rightarrow> error + ('k, 'v) lru" where
  "Set l k v = set_l l k v zeroTime"

text \<open>
  \<open>time.Duration(ttl) * time.Millisecond\<close> is a product of 64-bit signed integers and
  wraps; \<open>now\<close> is what \<open>time.Now()\<close> returns.
\<close>

definition wrap64 :: "int \<Rightarrow> int" where
  "wrap64 i = (i + 2 ^ 63) mod 2 ^ 64 - 2 ^ 63"

definition SetWithExpiry ::
  "('k, 'v) lru \<Rightarrow> time \<Rightarrow> 'k \<Rightarrow> 'v \<Rightarrow> int \<Rightarrow> error + ('k, 'v) lru" where
  "SetWithExpiry l now k v ttl_ms = set_l l k v (now + wrap64 (ttl_ms * 1000000))"

text \<open>
  \<open>Get\<close> returns \<open>Some v\<close> for \<open>(v, true)\<close> and \<open>None\<close> for the zero value with
  \<open>false\<close>. In the tail case \<open>l.head.prev = c\<close> dereferences \<open>l.head\<close>.
\<close>

definition Get :: "('k, 'v) lru \<Rightarrow> 'k \<Rightarrow> error + (('k, 'v) lru \<times> 'v option)" where
  "Get l k =
     (case cache_l l k of
        None \<Rightarrow> Inr (l, None)
      | Some c \<Rightarrow>
          (if prev (heap l c) = None then Inr (l, Some (value_c (heap l c)))
           else if next_c (heap l c) = None then
             (let l1 = set_next (the (prev (heap l c))) None l;
                  l2 = l1\<lparr>tail := prev (heap l1 c)\<rparr>;
                  l3 = set_prev c None l2;
                  l4 = set_next c (head l3) l3
              in case head l4 of
                   None \<Rightarrow> Inl NilDereference
                 | Some h \<Rightarrow>
                     (let l5 = set_prev h (Some c) l4;
                          l6 = l5\<lparr>head := Some c\<rparr>
                      in Inr (l6, Some (value_c (heap l6 c)))))
           else
             (let l1 = set_next (the (prev (heap l c))) (next_c (heap l c)) l;
                  l2 = set_prev (the (next_c (heap l1 c))) (prev (heap l1 c)) l1;
                  l3 = set_next c (head l2) l2;
                  l4 = set_prev c None l3;
                  l5 = l4\<lparr>head := Some c\<rparr>
              in Inr (l5, Some (value_c (heap l5 c))))))"

section \<open>The cleaner\<close>

text \<open>
  The body of one tick of \<open>startCleaner\<close>, at time \<open>t\<close>. The loop follows \<open>next\<close>
  pointers until nil and need not end, so it is a partial function: \<open>None\<close> is a sweep
  that never returns.
\<close>

partial_function (option) sweep :: "time \<Rightarrow> addr option \<Rightarrow> ('k, 'v) lru \<Rightarrow> ('k, 'v) lru option" where
  "sweep t h l =
     (case h of
        None \<Rightarrow> Some l
      | Some a \<Rightarrow>
          (let l1 = (if Before (ttl (heap l a)) t then fst (del l (key (heap l a))) else l)
           in sweep t (next_c (heap l1 a)) l1))"

text \<open>\<open>startCleaner\<close> returns at once on a cache without expiry: no tick ever runs there.\<close>

definition tick :: "time \<Rightarrow> ('k, 'v) lru \<Rightarrow> ('k, 'v) lru option" where
  "tick t l = (if \<not> withExpiry l then Some l else sweep t (head l) l)"

section \<open>Sequences of calls\<close>

datatype ('k, 'v) call =
  CSet 'k 'v
| CSetWithExpiry time 'k 'v int
| CGet 'k
| CDel 'k

fun call_step :: "('k, 'v) lru \<Rightarrow> ('k, 'v) call \<Rightarrow> error + ('k, 'v) lru" where
  "call_step l (CSet k v) = Set l k v"
| "call_step l (CSetWithExpiry now k v ms) = SetWithExpiry l now k v ms"
| "call_step l (CGet k) = (case Get l k of Inl e \<Rightarrow> Inl e | Inr (l', _) \<Rightarrow> Inr l')"
| "call_step l (CDel k) = Inr (fst (Del l k))"

fun calls :: "('k, 'v) lru \<Rightarrow> ('k, 'v) call list \<Rightarrow> error + ('k, 'v) lru" where
  "calls l [] = Inr l"
| "calls l (c # cs) = (case call_step l c of Inl e \<Rightarrow> Inl e | Inr l' \<Rightarrow> calls l' cs)"

section \<open>The invariant of the data model\<close>

text \<open>
  \<open>dll h p xs n\<close>: in store \<open>h\<close> the nodes \<open>xs\<close> are linked in this order, the first
  with predecessor \<open>p\<close> and the last with successor \<open>n\<close>.
\<close>

fun hdo :: "addr list \<Rightarrow> addr option \<Rightarrow> addr option" where
  "hdo [] n = n"
| "hdo (a # as) n = Some a"

fun lasto :: "addr option \<Rightarrow> addr list \<Rightarrow> addr option" where
  "lasto p [] = p"
| "lasto p (a # as) = lasto (Some a) as"

fun dll :: "(addr \<Rightarrow> ('k, 'v) cache) \<Rightarrow> addr option \<Rightarrow> addr list \<Rightarrow> addr option \<Rightarrow> bool" where
  "dll h p [] n = True"
| "dll h p (a # as) n = (prev (h a) = p \<and> next_c (h a) = hdo as n \<and> dll h (Some a) as n)"

text \<open>
  \<open>wf l xs\<close>: the list of \<open>l\<close> is \<open>xs\<close> from head to tail, the index holds exactly the
  nodes of the list, each under its own key, \<open>length\<close> counts them, and none lies at an
  address the allocator has yet to hand out.
\<close>

definition wf :: "('k, 'v) lru \<Rightarrow> addr list \<Rightarrow> bool" where
  "wf l xs =
     (dll (heap l) None xs None \<and> head l = hdo xs None \<and> tail l = lasto None xs \<and>
      distinct xs \<and>
      (\<forall>k a. (cache_l l k = Some a) = (a \<in> set xs \<and> key (heap l a) = k)) \<and>
      length_l l = int (length xs) \<and>
      (\<forall>a \<in> set xs. a < brk l))"

section \<open>The recency order of the specification\<close>

text \<open>
  Section 4.1 of the specification, on the resident keys alone, most recently used first:
  a hit of \<open>Get\<close> or \<open>Set\<close> moves the key to the front, a new key enters at the front
  after the last key has left a full cache, \<open>Del\<close> removes the key.
\<close>

fun spec_step :: "int \<Rightarrow> 'k list \<Rightarrow> ('k, 'v) call \<Rightarrow> 'k list" where
  "spec_step cap ks (CSet k v) =
     (if k \<in> set ks then k # removeAll k ks
      else k # (if int (length ks) \<ge> cap then butlast ks else ks))"
| "spec_step cap ks (CSetWithExpiry now k v ms) =
     (if k \<in> set ks then k # removeAll k ks
      else k # (if int (length ks) \<ge> cap then butlast ks else ks))"
| "spec_step cap ks (CGet k) = (if k \<in> set ks then k # removeAll k ks else ks)"
| "spec_step cap ks (CDel k) = removeAll k ks"

definition spec_calls :: "int \<Rightarrow> ('k, 'v) call list \<Rightarrow> 'k list" where
  "spec_calls cap cs = foldl (spec_step cap) [] cs"

text \<open>The zero value of \<open>cache[int, int]\<close>, for the examples.\<close>

definition zero_cache :: "(int, int) cache" where
  "zero_cache = \<lparr>key = 0, value_c = 0, prev = None, next_c = None, ttl = 0\<rparr>"

text \<open>
  \<open>same_data l l'\<close>: from \<open>l\<close> to \<open>l'\<close> no node has changed its key, value or
  deadline, and the size, the mode and the allocator are the same.
\<close>

definition same_data :: "('k, 'v) lru \<Rightarrow> ('k, 'v) lru \<Rightarrow> bool" where
  "same_data l l' = (size_l l' = size_l l \<and> withExpiry l' = withExpiry l \<and> brk l' = brk l \<and>
     (\<forall>a. key (heap l' a) = key (heap l a) \<and> value_c (heap l' a) = value_c (heap l a) \<and>
          ttl (heap l' a) = ttl (heap l a)))"

text \<open>
  Two states of a cache with expiry of size 3, for the examples: after
  \<open>SetWithExpiry(1, 10, 20000)\<close>, and after \<open>SetWithExpiry(2, 20, 2000)\<close> as well, both
  called one second after the zero instant.
\<close>

definition ex_one :: "(int, int) lru" where
  "ex_one =
     \<lparr>cache_l = [1 \<mapsto> 0], size_l = 3, withExpiry = True, head = Some 0, tail = Some 0,
      length_l = 1,
      heap = (\<lambda>_. zero_cache)
        (0 := \<lparr>key = 1, value_c = 10, prev = None, next_c = None, ttl = 21000000000\<rparr>),
      brk = 1\<rparr>"

definition ex_two :: "(int, int) lru" where
  "ex_two =
     \<lparr>cache_l = [1 \<mapsto> 0, 2 \<mapsto> 1], size_l = 3, withExpiry = True, head = Some 1,
      tail = Some 0, length_l = 2,
      heap = (\<lambda>_. zero_cache)
        (0 := \<lparr>key = 1, value_c = 10, prev = Some 1, next_c = None, ttl = 21000000000\<rparr>,
         1 := \<lparr>key = 2, value_c = 20, prev = None, next_c = Some 0, ttl = 3000000000\<rparr>),
      brk = 2\<rparr>"

lemmas lru_defs =
  New_def NewWithExpiry_def Set_def SetWithExpiry_def set_l_def set_resident_def
  set_unlink_def set_evict_def set_insert_def del_def Del_def Get_def Contains_def
  set_prev_def set_next_def set_value_def set_ttl_def zeroTime_def Before_def Let_def

section \<open>Calls that leave the data model\<close>

text \<open>
  C1. After every sequence of calls on a cache of positive capacity, \<open>length\<close> is at most
  the capacity. The code breaks this: in a cache of capacity 1, \<open>Set(1)\<close> twice links the
  node to itself, \<open>Del(1)\<close> then leaves it as head and tail, and the eviction of the
  second of two later insertions looks for the key of that dead tail, finds nothing to
  delete, and inserts all the same. Two keys are resident in a cache of capacity 1.
\<close>

theorem length_exceeds_size_after_calls:
  "case calls (New zero_cache 1) [CSet 1 10, CSet 1 11, CDel 1, CSet 2 20, CSet 3 30] of
     Inl e \<Rightarrow> False
   | Inr l \<Rightarrow> size_l l = 1 \<and> length_l l = 2 \<and> Contains l 2 \<and> Contains l 3"
  by (simp add: lru_defs zero_cache_def)

text \<open>
  C2. After every sequence of calls the index and the list agree and every interior node
  \<open>e\<close> has \<open>e.prev.next == e\<close>. The code breaks this: the interior case of \<open>Get\<close>
  moves the node to the head without setting the \<open>prev\<close> of the old head. After
  \<open>Set\<close> of 1, 2, 3 and \<open>Get(2)\<close> the node of key 3 follows the head, is neither head
  nor tail, and has no predecessor.
\<close>

theorem get_interior_leaves_stale_prev:
  "case calls (New zero_cache 3) [CSet 1 10, CSet 2 20, CSet 3 30, CGet 2] of
     Inl e \<Rightarrow> False
   | Inr l \<Rightarrow>
       (case cache_l l 3 of
          None \<Rightarrow> False
        | Some e \<Rightarrow> Some e \<noteq> head l \<and> Some e \<noteq> tail l \<and> prev (heap l e) = None \<and>
            (case head l of None \<Rightarrow> False | Some h \<Rightarrow> next_c (heap l h) = Some e))"
  by (simp add: lru_defs zero_cache_def)

text \<open>
  C3. A \<open>Set\<close> of a new key into a full cache evicts the key whose last access is the
  oldest. The two examples of the claim hold (\<open>eviction_example_in_order\<close>,
  \<open>eviction_example_after_get\<close> below). The general statement fails: after \<open>Set\<close> of
  1, 2, 3 and \<open>Get\<close> of 2, 3, 1 the key accessed longest ago is 2, and \<open>Set(4)\<close> evicts
  key 3; it also empties the list, so that keys 1 and 2 stay in the index with the new
  node as the only node of the list. The recency order of the specification keeps 4, 1, 3.
\<close>

theorem eviction_not_least_recently_used:
  "(case calls (New zero_cache 3)
           [CSet 1 10, CSet 2 20, CSet 3 30, CGet 2, CGet 3, CGet 1, CSet 4 40] of
      Inl e \<Rightarrow> False
    | Inr l \<Rightarrow> dom (cache_l l) = {1, 2, 4} \<and> head l = cache_l l 4 \<and> tail l = cache_l l 4) \<and>
   spec_calls 3 [CSet 1 10, CSet 2 20, CSet 3 30, CGet 2, CGet 3, CGet 1, CSet 4 (40::int)]
     = [4, 1, 3 :: int]"
  by (auto simp add: lru_defs zero_cache_def spec_calls_def)

lemma eviction_example_in_order:
  "(case calls (New zero_cache 3) [CSet 1 10, CSet 2 20, CSet 3 30, CSet 4 40] of
      Inl e \<Rightarrow> False
    | Inr l \<Rightarrow> dom (cache_l l) = {2, 3, 4})"
  by (auto simp add: lru_defs zero_cache_def)

lemma eviction_example_after_get:
  "(case calls (New zero_cache 3) [CSet 1 10, CSet 2 20, CSet 3 30, CGet 1, CSet 4 40] of
      Inl e \<Rightarrow> False
    | Inr l \<Rightarrow> dom (cache_l l) = {1, 3, 4})"
  by (auto simp add: lru_defs zero_cache_def)

text \<open>
  C4. \<open>Set\<close> of a resident key keeps \<open>length\<close>, stores the value, and makes the key the
  head with the other entries behind it in their order. The code breaks the last part
  when the key is the head already: it skips the unlinking and then runs
  \<open>c.next = l.head\<close> with \<open>l.head == c\<close>. After \<open>Set\<close> of 1, 2 and \<open>Set(2)\<close> again
  the head is its own successor, and the node of key 1 is no longer reached from it.
\<close>

theorem set_head_key_self_loop:
  "case calls (New zero_cache 3) [CSet 1 10, CSet 2 20, CSet 2 21] of
     Inl e \<Rightarrow> False
   | Inr l \<Rightarrow>
       length_l l = 2 \<and>
       (case head l of
          None \<Rightarrow> False
        | Some h \<Rightarrow> cache_l l 2 = Some h \<and> value_c (heap l h) = 21 \<and>
            next_c (heap l h) = Some h \<and> Contains l 1 \<and> cache_l l 1 \<noteq> Some h)"
  by (simp add: lru_defs zero_cache_def)

section \<open>Construction and the mode of the cache\<close>

text \<open>
  C6, as the claim states it: a capacity of zero or less is rejected at construction.
  It is not: \<open>New\<close> and \<open>NewWithExpiry\<close> return an empty cache of size 0, and the first
  write on it dereferences the nil tail.
\<close>

theorem New_zero_size_accepted:
  "size_l (New zero_cache 0) = 0 \<and> length_l (New zero_cache 0) = 0 \<and>
   Set (New zero_cache 0) 1 10 = Inl NilDereference \<and>
   size_l (NewWithExpiry zero_cache 0) = 0 \<and> length_l (NewWithExpiry zero_cache 0) = 0 \<and>
   SetWithExpiry (NewWithExpiry zero_cache 0) 5 1 10 2000 = Inl NilDereference"
  by (simp add: lru_defs zero_cache_def)

text \<open>
  C6, amended: \<open>New\<close> and \<open>NewWithExpiry\<close> accept every size and return an empty cache
  of that size; when the size is zero or less, the first \<open>Set\<close> or \<open>SetWithExpiry\<close> on
  that cache fails at run time, dereferencing the nil tail.
\<close>

theorem New_accepts_any_size:
  "size_l (New junk sz) = sz \<and> length_l (New junk sz) = 0 \<and>
   cache_l (New junk sz) = Map.empty \<and> head (New junk sz) = None \<and>
   tail (New junk sz) = None \<and>
   size_l (NewWithExpiry junk sz) = sz \<and> length_l (NewWithExpiry junk sz) = 0 \<and>
   cache_l (NewWithExpiry junk sz) = Map.empty \<and> head (NewWithExpiry junk sz) = None \<and>
   tail (NewWithExpiry junk sz) = None \<and>
   (sz \<le> 0 \<longrightarrow>
      Set (New junk sz) k v = Inl NilDereference \<and>
      SetWithExpiry (NewWithExpiry junk sz) now k v ms = Inl NilDereference)"
  by (simp add: lru_defs)

theorem New_accepts_any_size_witness:
  "(-1::int) \<le> 0 \<and> size_l (New zero_cache (-1)) = -1 \<and>
   Set (New zero_cache (-1)) 1 10 = Inl NilDereference \<and>
   SetWithExpiry (NewWithExpiry zero_cache (-1)) 5 1 10 2000 = Inl NilDereference"
  using New_accepts_any_size [of zero_cache "-1" 1 10 5 2000] by simp

text \<open>
  C7, as the claim states it: \<open>Set\<close> on a cache with expiry, and \<open>SetWithExpiry\<close> on
  a cache without, report an error. Both are accepted: the entry is stored, with the zero
  deadline by \<open>Set\<close> and with the deadline \<open>now + ttl\<close> by \<open>SetWithExpiry\<close>.
\<close>

theorem Set_on_expiry_cache_accepted:
  "(case Set (NewWithExpiry zero_cache 3) 1 10 of
      Inl e \<Rightarrow> False
    | Inr l \<Rightarrow> withExpiry l \<and> Contains l 1 \<and> length_l l = 1 \<and>
        (case cache_l l 1 of None \<Rightarrow> False | Some c \<Rightarrow> ttl (heap l c) = zeroTime)) \<and>
   (case SetWithExpiry (New zero_cache 3) 5 1 10 2000 of
      Inl e \<Rightarrow> False
    | Inr l \<Rightarrow> \<not> withExpiry l \<and> Contains l 1 \<and> length_l l = 1 \<and>
        (case cache_l l 1 of None \<Rightarrow> False | Some c \<Rightarrow> ttl (heap l c) = 2000000005))"
  by (simp add: lru_defs zero_cache_def wrap64_def)

lemma fst_del_withExpiry:
  "fst (del (l\<lparr>withExpiry := b\<rparr>) k) = (fst (del l k))\<lparr>withExpiry := b\<rparr>"
  by (simp add: del_def Contains_def set_prev_def set_next_def Let_def)

lemma set_evict_withExpiry:
  "set_evict (l\<lparr>withExpiry := b\<rparr>) = map_sum id (\<lambda>l'. l'\<lparr>withExpiry := b\<rparr>) (set_evict l)"
  by (simp add: set_evict_def fst_del_withExpiry split: option.splits)

lemma set_insert_withExpiry:
  "set_insert (l\<lparr>withExpiry := b\<rparr>) k v e = (set_insert l k v e)\<lparr>withExpiry := b\<rparr>"
  by (simp add: set_insert_def set_prev_def Let_def split: option.splits)

lemma set_unlink_withExpiry:
  "set_unlink (l\<lparr>withExpiry := b\<rparr>) c = map_sum id (\<lambda>l'. l'\<lparr>withExpiry := b\<rparr>) (set_unlink l c)"
  by (simp add: set_unlink_def set_prev_def set_next_def Let_def split: option.splits)

lemma set_resident_withExpiry:
  "set_resident (l\<lparr>withExpiry := b\<rparr>) k c v e =
     map_sum id (\<lambda>l'. l'\<lparr>withExpiry := b\<rparr>) (set_resident l k c v e)"
  by (cases "set_unlink l c")
     (simp_all add: set_resident_def set_unlink_withExpiry set_prev_def set_next_def
        set_value_def set_ttl_def Let_def)

lemma set_l_withExpiry:
  "set_l (l\<lparr>withExpiry := b\<rparr>) k v e = map_sum id (\<lambda>l'. l'\<lparr>withExpiry := b\<rparr>) (set_l l k v e)"
  by (cases "set_evict l")
     (simp_all add: set_l_def set_resident_withExpiry set_evict_withExpiry
        set_insert_withExpiry split: option.splits)

text \<open>
  C7, amended: \<open>Set\<close> and \<open>SetWithExpiry\<close> never read the mode of the cache. On a cache
  of either mode each does the same write and returns the same result, error or state, up
  to the mode itself; no call reports a misuse.
\<close>

theorem set_ignores_withExpiry:
  "Set (l\<lparr>withExpiry := b\<rparr>) k v = map_sum id (\<lambda>l'. l'\<lparr>withExpiry := b\<rparr>) (Set l k v) \<and>
   SetWithExpiry (l\<lparr>withExpiry := b\<rparr>) now k v ms =
     map_sum id (\<lambda>l'. l'\<lparr>withExpiry := b\<rparr>) (SetWithExpiry l now k v ms)"
  by (simp add: Set_def SetWithExpiry_def set_l_withExpiry)

section \<open>The operations on a list that satisfies the invariant\<close>

lemma hdo_append: "hdo (xs @ ys) n = hdo xs (hdo ys n)"
  by (cases xs) auto

lemma lasto_snoc [simp]: "lasto p (xs @ [a]) = Some a"
  by (induction xs arbitrary: p) auto

lemma lasto_append: "lasto p (xs @ ys) = lasto (lasto p xs) ys"
  by (induction xs arbitrary: p) auto

lemma dll_append:
  "dll h p (xs @ ys) n = (dll h p xs (hdo ys n) \<and> dll h (lasto p xs) ys n)"
  by (induction xs arbitrary: p) (auto simp: hdo_append)

lemma dll_frame: "a \<notin> set xs \<Longrightarrow> dll (h(a := c)) p xs n = dll h p xs n"
  by (induction xs arbitrary: p) auto

text \<open>What the invariant says about a node in the middle of the list.\<close>

lemma wf_split:
  assumes "wf l (ys @ c # zs)"
  shows "dll (heap l) None ys (Some c)" "prev (heap l c) = lasto None ys"
    "next_c (heap l c) = hdo zs None" "dll (heap l) (Some c) zs None"
    "c \<notin> set ys" "c \<notin> set zs" "distinct ys" "distinct zs" "set ys \<inter> set zs = {}"
    "cache_l l (key (heap l c)) = Some c"
    "head l = hdo ys (Some c)" "tail l = lasto (Some c) zs"
    "length_l l = int (length ys) + 1 + int (length zs)"
  using assms by (auto simp: wf_def dll_append hdo_append lasto_append)

lemma del_resident:
  assumes "cache_l l k = Some c"
  shows "del l k =
    ((let l1 =
              (if prev (heap l c) = None \<and> next_c (heap l c) = None
               then l\<lparr>head := None, tail := None\<rparr>
               else if prev (heap l c) = None then
                 (let la = set_prev (the (next_c (heap l c))) None l
                  in la\<lparr>head := next_c (heap la c)\<rparr>)
               else if next_c (heap l c) = None then
                 (let la = set_next (the (prev (heap l c))) None l
                  in la\<lparr>tail := prev (heap la c)\<rparr>)
               else
                 (let la = set_prev (the (next_c (heap l c))) (prev (heap l c)) l
                  in set_next (the (prev (heap la c))) (next_c (heap la c)) la))
       in l1\<lparr>cache_l := (cache_l l1)(k := None), length_l := length_l l1 - 1\<rparr>), True)"
  using assms by (simp add: del_def Contains_def Let_def)

lemma index_del:
  assumes idx: "\<forall>k a. (m k = Some a) = (a \<in> set (ys @ c # zs) \<and> key (h a) = k)"
    and d: "distinct (ys @ c # zs)"
    and keys: "\<And>a. key (h' a) = key (h a)"
  shows "\<forall>k a. ((m(key (h c) := None)) k = Some a) = (a \<in> set (ys @ zs) \<and> key (h' a) = k)"
proof (intro allI)
  fix k a
  have c: "m (key (h c)) = Some c" using idx by simp
  show "((m(key (h c) := None)) k = Some a) = (a \<in> set (ys @ zs) \<and> key (h' a) = k)"
  proof (cases "k = key (h c)")
    case True
    have "\<not> (a \<in> set (ys @ zs) \<and> key (h a) = k)"
    proof
      assume a: "a \<in> set (ys @ zs) \<and> key (h a) = k"
      then have "m k = Some a" using idx by auto
      with c True have "a = c" by simp
      with a d show False by auto
    qed
    with True show ?thesis by (simp add: keys)
  next
    case False
    have "(m k = Some a) = (a \<in> set (ys @ zs) \<and> key (h a) = k)"
      using idx False by auto
    with False show ?thesis by (simp add: keys)
  qed
qed

lemma del_wf_only:
  assumes "wf l [c]"
  shows "wf (fst (del l (key (heap l c)))) []"
proof -
  have r: "cache_l l (key (heap l c)) = Some c" using wf_split(10)[of l "[]" c "[]"] assms by simp
  have i: "\<forall>k a. (((cache_l l)(key (heap l c) := None)) k = Some a) = (a \<in> set ([] @ []) \<and> key (heap l a) = k)"
    using assms by (intro index_del) (auto simp: wf_def)
  show ?thesis using assms i unfolding del_resident[OF r]
    by (simp add: wf_def)
qed

lemma del_wf_first:
  assumes "wf l (c # b # zs)"
  shows "wf (fst (del l (key (heap l c)))) (b # zs)"
proof -
  have r: "cache_l l (key (heap l c)) = Some c" using wf_split(10)[of l "[]" c "b # zs"] assms by simp
  let ?h = "(heap l)(b := (heap l b)\<lparr>prev := None\<rparr>)"
  have i: "\<forall>k a. (((cache_l l)(key (heap l c) := None)) k = Some a) = (a \<in> set ([] @ b # zs) \<and> key (?h a) = k)"
    using assms by (intro index_del) (auto simp: wf_def)
  show ?thesis using assms i unfolding del_resident[OF r]
    by (simp add: wf_def set_prev_def dll_frame)
qed

lemma del_wf_last:
  assumes "wf l (ys @ [p, c])"
  shows "wf (fst (del l (key (heap l c)))) (ys @ [p])"
proof -
  have r: "cache_l l (key (heap l c)) = Some c" using wf_split(10)[of l "ys @ [p]" c "[]"] assms by simp
  let ?h = "(heap l)(p := (heap l p)\<lparr>next_c := None\<rparr>)"
  have i: "\<forall>k a. (((cache_l l)(key (heap l c) := None)) k = Some a) = (a \<in> set ((ys @ [p]) @ []) \<and> key (?h a) = k)"
    using assms by (intro index_del) (auto simp: wf_def)
  show ?thesis using assms i unfolding del_resident[OF r]
    by (simp add: wf_def set_next_def dll_frame dll_append lasto_append hdo_append)
qed

lemma del_wf_middle:
  assumes "wf l (ys @ [p, c, b] @ zs)"
  shows "wf (fst (del l (key (heap l c)))) (ys @ [p, b] @ zs)"
proof -
  have r: "cache_l l (key (heap l c)) = Some c" using wf_split(10)[of l "ys @ [p]" c "b # zs"] assms by simp
  let ?h = "(heap l)(b := (heap l b)\<lparr>prev := Some p\<rparr>, p := (heap l p)\<lparr>next_c := Some b\<rparr>)"
  have i: "\<forall>k a. (((cache_l l)(key (heap l c) := None)) k = Some a) = (a \<in> set ((ys @ [p]) @ (b # zs)) \<and> key (?h a) = k)"
    using assms by (intro index_del) (auto simp: wf_def)
  show ?thesis using assms i unfolding del_resident[OF r]
    by (simp add: wf_def set_next_def set_prev_def dll_frame dll_append lasto_append hdo_append)
qed


lemma del_wf:
  assumes "wf l (ys @ c # zs)"
  shows "wf (fst (del l (key (heap l c)))) (ys @ zs)"
proof (cases ys rule: rev_cases)
  case Nil
  show ?thesis
  proof (cases zs)
    case Nil
    with \<open>ys = []\<close> assms show ?thesis using del_wf_only by simp
  next
    case (Cons b zs')
    with \<open>ys = []\<close> assms show ?thesis using del_wf_first by simp
  qed
next
  case (snoc ys' p)
  show ?thesis
  proof (cases zs)
    case Nil
    with snoc assms show ?thesis using del_wf_last[of l ys' p c] by simp
  next
    case (Cons b zs')
    with snoc assms show ?thesis using del_wf_middle[of l ys' p c b zs'] by simp
  qed
qed

lemma del_same_data: "same_data l (fst (del l k))"
  by (simp add: same_data_def del_def set_prev_def set_next_def Let_def)

lemma del_next_self:
  assumes "wf l (ys @ c # zs)"
  shows "next_c (heap (fst (del l (key (heap l c)))) c) = next_c (heap l c)"
proof -
  have r: "cache_l l (key (heap l c)) = Some c" using wf_split(10)[OF assms] .
  have p: "prev (heap l c) \<noteq> Some c"
    using wf_split(2)[OF assms] wf_split(5)[OF assms]
    by (cases ys rule: rev_cases) (auto simp: lasto_append)
  show ?thesis unfolding del_resident[OF r]
    using p by (auto simp: set_prev_def set_next_def Let_def)
qed

lemma same_data_trans: "same_data a b \<Longrightarrow> same_data b c \<Longrightarrow> same_data a c"
  by (simp add: same_data_def)

lemma same_data_refl: "same_data a a"
  by (simp add: same_data_def)

lemma sweep_wf:
  "wf l (ys @ zs) \<Longrightarrow>
   \<exists>l'. sweep t (hdo zs None) l = Some l' \<and>
        wf l' (ys @ filter (\<lambda>a. \<not> Before (ttl (heap l a)) t) zs) \<and> same_data l l'"
proof (induction zs arbitrary: l ys)
  case Nil
  then show ?case by (simp add: sweep.simps same_data_refl)
next
  case (Cons c zs)
  have nx: "next_c (heap l c) = hdo zs None" using wf_split(3)[OF Cons.prems] .
  show ?case
  proof (cases "Before (ttl (heap l c)) t")
    case True
    let ?l1 = "fst (del l (key (heap l c)))"
    have w1: "wf ?l1 (ys @ zs)" using del_wf[OF Cons.prems] .
    have sd: "same_data l ?l1" by (rule del_same_data)
    have n1: "next_c (heap ?l1 c) = hdo zs None" using del_next_self[OF Cons.prems] nx by simp
    from Cons.IH[OF w1] obtain l' where
      l': "sweep t (hdo zs None) ?l1 = Some l'"
        "wf l' (ys @ filter (\<lambda>a. \<not> Before (ttl (heap ?l1 a)) t) zs)" "same_data ?l1 l'"
      by blast
    have f: "filter (\<lambda>a. \<not> Before (ttl (heap ?l1 a)) t) zs = filter (\<lambda>a. \<not> Before (ttl (heap l a)) t) zs"
      using sd by (simp add: same_data_def)
    have "sweep t (hdo (c # zs) None) l = sweep t (hdo zs None) ?l1"
      using True n1 by (subst sweep.simps) (simp add: Let_def)
    with l' f True sd show ?thesis by (auto intro: same_data_trans)
  next
    case False
    have w1: "wf l ((ys @ [c]) @ zs)" using Cons.prems by simp
    from Cons.IH[OF w1] obtain l' where
      l': "sweep t (hdo zs None) l = Some l'"
        "wf l' ((ys @ [c]) @ filter (\<lambda>a. \<not> Before (ttl (heap l a)) t) zs)" "same_data l l'"
      by blast
    have "sweep t (hdo (c # zs) None) l = sweep t (hdo zs None) l"
      using False nx by (subst sweep.simps) (simp add: Let_def)
    with l' False show ?thesis by auto
  qed
qed

lemma index_ins:
  assumes idx: "\<forall>k a. (m k = Some a) = (a \<in> set xs \<and> key (h a) = k)"
    and fresh: "c \<notin> set xs" and new: "m k = None"
    and keys: "\<And>a. key (h' a) = (if a = c then k else key (h a))"
  shows "\<forall>k' a. ((m(k \<mapsto> c)) k' = Some a) = (a \<in> set (c # xs) \<and> key (h' a) = k')"
proof (intro allI)
  fix k' a
  show "((m(k \<mapsto> c)) k' = Some a) = (a \<in> set (c # xs) \<and> key (h' a) = k')"
  proof (cases "k' = k")
    case True
    have "\<not> (a \<in> set xs \<and> key (h a) = k)" using idx new by (metis option.distinct(1))
    with True fresh show ?thesis by (auto simp: keys)
  next
    case False
    have "(m k' = Some a) = (a \<in> set xs \<and> key (h a) = k')" using idx by simp
    with False fresh show ?thesis by (auto simp: keys)
  qed
qed

lemma set_insert_wf:
  assumes "wf l xs" "cache_l l k = None"
  shows "wf (set_insert l k v e) (brk l # xs)"
proof -
  have fresh: "brk l \<notin> set xs" using assms(1) by (auto simp: wf_def)
  show ?thesis
  proof (cases xs)
    case Nil
    let ?h = "(heap l)(brk l := \<lparr>key = k, value_c = v, prev = None, next_c = None, ttl = e\<rparr>)"
    have i: "\<forall>k' a. (((cache_l l)(k \<mapsto> brk l)) k' = Some a) = (a \<in> set (brk l # xs) \<and> key (?h a) = k')"
      using assms fresh by (intro index_ins) (auto simp: wf_def)
    show ?thesis using assms i Nil by (simp add: wf_def set_insert_def Let_def)
  next
    case (Cons b xs')
    let ?h = "(heap l)(brk l := \<lparr>key = k, value_c = v, prev = None, next_c = Some b, ttl = e\<rparr>,
        b := (heap l b)\<lparr>prev := Some (brk l)\<rparr>)"
    have ne: "b \<noteq> brk l" using fresh Cons by auto
    have i: "\<forall>k' a. (((cache_l l)(k \<mapsto> brk l)) k' = Some a) = (a \<in> set (brk l # xs) \<and> key (?h a) = k')"
      using assms fresh ne by (intro index_ins) (auto simp: wf_def)
    show ?thesis using assms i Cons fresh ne
      by (simp add: wf_def set_insert_def set_prev_def Let_def dll_frame less_Suc_eq)
  qed
qed

lemma set_insert_facts:
  "cache_l (set_insert l k v e) k = Some (brk l)"
  "ttl (heap (set_insert l k v e) (brk l)) = e"
  "withExpiry (set_insert l k v e) = withExpiry l"
  by (auto simp: set_insert_def set_prev_def Let_def split: option.splits)

lemma del_keeps_absent: "cache_l l k = None \<Longrightarrow> cache_l (fst (del l k')) k = None"
  by (simp add: del_def set_prev_def set_next_def Let_def)

lemma set_evict_wf:
  assumes "wf l xs" "0 < size_l l"
  shows "\<exists>l1 xs1. set_evict l = Inr l1 \<and> wf l1 xs1 \<and> same_data l l1 \<and>
           (cache_l l k = None \<longrightarrow> cache_l l1 k = None)"
proof (cases "length_l l \<ge> size_l l")
  case False
  with assms show ?thesis by (auto simp: set_evict_def same_data_refl)
next
  case True
  with assms have "xs \<noteq> []" by (auto simp: wf_def)
  then obtain ys c where xs: "xs = ys @ [c]" by (cases xs rule: rev_cases) auto
  have t: "tail l = Some c" using assms(1) xs by (simp add: wf_def)
  have w: "wf (fst (del l (key (heap l c)))) (ys @ [])"
    using del_wf[of l ys c "[]"] assms(1) xs by simp
  show ?thesis using True t w del_same_data[of l "key (heap l c)"] del_keeps_absent[of l k "key (heap l c)"]
    by (auto simp: set_evict_def)
qed

lemma Set_new_wf:
  assumes "wf l xs" "0 < size_l l" "cache_l l k = None"
  shows "\<exists>l1 xs1. set_l l k v e = Inr l1 \<and> wf l1 (brk l # xs1) \<and> cache_l l1 k = Some (brk l) \<and>
           ttl (heap l1 (brk l)) = e \<and> withExpiry l1 = withExpiry l"
proof -
  from set_evict_wf[OF assms(1,2), of k] assms(3) obtain la xs1 where
    la: "set_evict l = Inr la" "wf la xs1" "same_data l la" "cache_l la k = None"
    by auto
  have b: "brk la = brk l" "withExpiry la = withExpiry l" using la(3) by (auto simp: same_data_def)
  have "set_l l k v e = Inr (set_insert la k v e)" using assms(3) la(1) by (simp add: set_l_def)
  moreover have "wf (set_insert la k v e) (brk l # xs1)" using set_insert_wf[OF la(2,4)] b by simp
  ultimately show ?thesis using set_insert_facts[of la k v e] b by auto
qed

lemma Get_wf:
  assumes "wf l xs" "cache_l l k = Some c"
  shows "\<exists>l'. Get l k = Inr (l', Some (value_c (heap l c))) \<and> head l' = Some c \<and>
           cache_l l' = cache_l l \<and> length_l l' = length_l l \<and> same_data l l'"
proof -
  have "c \<in> set xs" using assms by (auto simp: wf_def)
  then obtain ys zs where xs: "xs = ys @ c # zs" by (auto simp: in_set_conv_decomp)
  note w = wf_split[OF assms(1)[unfolded xs]]
  show ?thesis
  proof (cases ys rule: rev_cases)
    case Nil
    with w assms(2) show ?thesis by (simp add: Get_def same_data_refl)
  next
    case (snoc ys' p)
    have hd: "head l \<noteq> None" using w(11) snoc by (cases ys') auto
    have pc: "p \<noteq> c" using w(5) snoc by auto
    show ?thesis
    proof (cases zs)
      case Nil
      with w snoc assms(2) hd pc show ?thesis
        by (auto simp: Get_def set_prev_def set_next_def Let_def same_data_def split: option.splits)
    next
      case (Cons b zs')
      have bc: "b \<noteq> c" using w(6) Cons by auto
      with Cons w snoc assms(2) hd pc show ?thesis
        by (auto simp: Get_def set_prev_def set_next_def Let_def same_data_def split: option.splits)
    qed
  qed
qed

lemma ex_one_reached:
  "calls (NewWithExpiry zero_cache 3) [CSetWithExpiry 1000000000 1 10 20000] = Inr ex_one"
  by (simp add: lru_defs ex_one_def wrap64_def)

lemma ex_two_reached:
  "calls (NewWithExpiry zero_cache 3)
     [CSetWithExpiry 1000000000 1 10 20000, CSetWithExpiry 1000000000 2 20 2000] = Inr ex_two"
  by (simp add: lru_defs ex_two_def wrap64_def fun_eq_iff)

lemma wf_ex_one: "wf ex_one [0]"
  by (auto simp: wf_def ex_one_def zero_cache_def split: if_splits)

lemma wf_ex_two: "wf ex_two [1, 0]"
  by (auto simp: wf_def ex_two_def zero_cache_def split: if_splits)

text \<open>
  The state that \<open>Get\<close> of an interior node leaves satisfies the invariant for no
  sequence of nodes.
\<close>

lemma get_interior_state_not_wf:
  "case calls (New zero_cache 3) [CSet 1 10, CSet 2 20, CSet 3 30, CGet 2] of
     Inl e \<Rightarrow> False
   | Inr l \<Rightarrow> \<forall>xs. \<not> wf l xs"
proof -
  obtain l where l: "calls (New zero_cache 3) [CSet 1 10, CSet 2 20, CSet 3 30, CGet 2] = Inr l"
    and h: "head l = Some 1" "next_c (heap l 1) = Some 2" "prev (heap l 2) = None"
    by (simp add: lru_defs zero_cache_def)
  have "\<not> wf l xs" for xs
  proof
    assume w: "wf l xs"
    with h(1) obtain xs1 where 1: "xs = 1 # xs1" by (cases xs) (auto simp: wf_def)
    with w h(2) obtain xs2 where 2: "xs1 = 2 # xs2" by (cases xs1) (auto simp: wf_def)
    with 1 w h(3) show False by (auto simp: wf_def)
  qed
  with l show ?thesis by simp
qed

section \<open>Deletion, lookup and the cleaner on states that satisfy the invariant\<close>

text \<open>
  In every state \<open>Del\<close> of a resident key returns true, the key is then absent and
  \<open>length\<close> is one less, and \<open>Del\<close> of an absent key returns false and the state is the
  one before. When the invariant holds and \<open>length\<close> is 1, head and tail are nil after
  the deletion.
\<close>

lemma Del_on_invariant:
  "(cache_l l k = Some c \<longrightarrow>
      snd (Del l k) \<and> \<not> Contains (fst (Del l k)) k \<and>
      length_l (fst (Del l k)) = length_l l - 1 \<and>
      (wf l xs \<and> length_l l = 1 \<longrightarrow>
         head (fst (Del l k)) = None \<and> tail (fst (Del l k)) = None)) \<and>
   (\<not> Contains m j \<longrightarrow> Del m j = (m, False))"
proof (intro conjI impI)
  assume r: "cache_l l k = Some c"
  show "snd (Del l k)" "\<not> Contains (fst (Del l k)) k"
    "length_l (fst (Del l k)) = length_l l - 1"
    unfolding Del_def del_resident[OF r]
    by (simp_all add: Let_def Contains_def set_prev_def set_next_def)
  assume w: "wf l xs \<and> length_l l = 1"
  then obtain a where xs: "xs = [a]" by (cases xs) (auto simp: wf_def)
  with w r have "a = c" by (auto simp: wf_def)
  with w xs have "prev (heap l c) = None" "next_c (heap l c) = None" by (auto simp: wf_def)
  then show "head (fst (Del l k)) = None" "tail (fst (Del l k)) = None"
    unfolding Del_def del_resident[OF r] by simp_all
next
  assume "\<not> Contains m j"
  then show "Del m j = (m, False)" by (simp add: Del_def del_def)
qed

lemma Del_on_invariant_example:
  "cache_l ex_one 1 = Some 0 \<and> wf ex_one [0] \<and> length_l ex_one = 1 \<and>
   snd (Del ex_one 1) \<and> \<not> Contains (fst (Del ex_one 1)) 1 \<and>
   length_l (fst (Del ex_one 1)) = 0 \<and>
   head (fst (Del ex_one 1)) = None \<and> tail (fst (Del ex_one 1)) = None \<and>
   \<not> Contains ex_two 7 \<and> Del ex_two 7 = (ex_two, False)"
proof -
  have a: "cache_l ex_one 1 = Some 0" "length_l ex_one = 1" "\<not> Contains ex_two 7"
    by (simp_all add: ex_one_def ex_two_def Contains_def)
  show ?thesis
    using Del_on_invariant [of ex_one 1 0 "[0]" ex_two 7] a wf_ex_one by simp
qed

lemma Get_never_reads_ttl:
  assumes "cache_l m j = Some d"
  shows "Contains m j \<and> (\<forall>m' r. Get m j = Inr (m', r) \<longrightarrow> r = Some (value_c (heap m d)))"
  using assms
  by (auto simp: Contains_def Get_def Let_def set_prev_def set_next_def
      split: if_splits option.splits)

text \<open>
  Neither \<open>Get\<close> nor \<open>Contains\<close> reads the deadline. In every state, \<open>Contains\<close> of
  a resident key is true and a \<open>Get\<close> of it that returns, returns the stored value with
  \<open>found\<close> true. In a state of a cache with expiry that satisfies the invariant, \<open>Get\<close> of a
  resident key whose deadline has passed does return, with the stored value, and the entry
  of the key is the head afterwards and still resident.
\<close>

lemma Get_on_invariant:
  "(cache_l m j = Some d \<longrightarrow>
      Contains m j \<and> (\<forall>m' r. Get m j = Inr (m', r) \<longrightarrow> r = Some (value_c (heap m d)))) \<and>
   (wf l xs \<and> withExpiry l \<and> cache_l l k = Some c \<and> Before (ttl (heap l c)) now \<longrightarrow>
      Contains l k \<and>
      (\<exists>l'. Get l k = Inr (l', Some (value_c (heap l c))) \<and> head l' = Some c \<and>
            key (heap l' c) = k \<and> Contains l' k))"
proof (intro conjI impI)
  assume "cache_l m j = Some d"
  then show "Contains m j"
    "\<forall>m' r. Get m j = Inr (m', r) \<longrightarrow> r = Some (value_c (heap m d))"
    using Get_never_reads_ttl[of m j d] by simp_all
next
  assume h: "wf l xs \<and> withExpiry l \<and> cache_l l k = Some c \<and> Before (ttl (heap l c)) now"
  then show "Contains l k" by (simp add: Contains_def)
  from h Get_wf[of l xs k c] obtain l' where
    g: "Get l k = Inr (l', Some (value_c (heap l c)))" "head l' = Some c"
       "cache_l l' = cache_l l" "same_data l l'"
    by blast
  have "key (heap l c) = k" using h by (auto simp: wf_def)
  then have "key (heap l' c) = k" using g(4) by (simp add: same_data_def)
  with g h show "\<exists>l'. Get l k = Inr (l', Some (value_c (heap l c))) \<and> head l' = Some c \<and>
            key (heap l' c) = k \<and> Contains l' k"
    by (simp add: Contains_def)
qed

lemma Get_on_invariant_example:
  "cache_l ex_two 2 = Some 1 \<and> Contains ex_two 2 \<and>
   (\<exists>m'. Get ex_two 2 = Inr (m', Some 20)) \<and>
   wf ex_two [1, 0] \<and> withExpiry ex_two \<and> cache_l ex_two 1 = Some 0 \<and>
   Before (ttl (heap ex_two 0)) 30000000000 \<and> Contains ex_two 1 \<and>
   (\<exists>l'. Get ex_two 1 = Inr (l', Some 10) \<and> head l' = Some 0 \<and> key (heap l' 0) = 1 \<and>
         Contains l' 1)"
proof -
  have a: "withExpiry ex_two" "cache_l ex_two 1 = Some 0" "cache_l ex_two 2 = Some 1"
    "Before (ttl (heap ex_two 0)) 30000000000" "value_c (heap ex_two 0) = 10"
    "value_c (heap ex_two 1) = 20"
    by (simp_all add: ex_two_def Before_def)
  obtain m' r where g: "Get ex_two 2 = Inr (m', r)"
    by (simp add: Get_def ex_two_def)
  note t = Get_on_invariant [of ex_two 2 1 ex_two "[1, 0]" 1 0 30000000000]
  from t g a have "r = Some 20" by simp
  with t g a wf_ex_two show ?thesis by simp
qed

lemma tick_wf:
  assumes "wf l xs" "withExpiry l"
  shows "\<exists>l'. tick t l = Some l' \<and>
     wf l' (filter (\<lambda>a. \<not> Before (ttl (heap l a)) t) xs) \<and> same_data l l' \<and>
     (\<forall>k. cache_l l' k =
        (case cache_l l k of
           None \<Rightarrow> None
         | Some a \<Rightarrow> if Before (ttl (heap l a)) t then None else Some a))"
proof -
  have "wf l ([] @ xs)" using assms(1) by simp
  from sweep_wf[OF this, of t] obtain l' where
    s: "sweep t (hdo xs None) l = Some l'"
       "wf l' (filter (\<lambda>a. \<not> Before (ttl (heap l a)) t) xs)" "same_data l l'"
    by auto
  have t: "tick t l = Some l'" using s(1) assms by (simp add: tick_def wf_def)
  have "cache_l l' k =
        (case cache_l l k of
           None \<Rightarrow> None
         | Some a \<Rightarrow> if Before (ttl (heap l a)) t then None else Some a)" for k
  proof (cases "cache_l l' k")
    case None
    show ?thesis
    proof (cases "cache_l l k")
      case (Some a)
      then have "a \<in> set xs" "key (heap l a) = k" using assms(1) by (auto simp: wf_def)
      then have "\<not> Before (ttl (heap l a)) t \<Longrightarrow> cache_l l' k = Some a"
        using s(2,3) by (auto simp: wf_def same_data_def)
      with None Some show ?thesis by auto
    qed (simp add: None)
  next
    case (Some a)
    then have "a \<in> set xs" "\<not> Before (ttl (heap l a)) t" "key (heap l a) = k"
      using s(2,3) by (auto simp: wf_def same_data_def)
    then have "cache_l l k = Some a" using assms(1) by (auto simp: wf_def)
    with Some \<open>\<not> Before (ttl (heap l a)) t\<close> show ?thesis by simp
  qed
  with t s show ?thesis by blast
qed

text \<open>
  One sweep of the cleaner at time \<open>t\<close> over a cache with expiry that satisfies the
  invariant returns; it leaves the list of exactly the nodes whose deadline is not before
  \<open>t\<close>, in their order, with key, value and deadline as before, and the index holds
  exactly their keys.
\<close>

lemma tick_on_invariant:
  assumes "wf l xs" "withExpiry l"
  shows "\<exists>l'. tick t l = Some l' \<and>
     wf l' (filter (\<lambda>a. \<not> Before (ttl (heap l a)) t) xs) \<and> same_data l l' \<and>
     (\<forall>k. cache_l l' k =
        (case cache_l l k of
           None \<Rightarrow> None
         | Some a \<Rightarrow> if Before (ttl (heap l a)) t then None else Some a))"
  using assms by (rule tick_wf)

lemma tick_on_invariant_example:
  "wf ex_two [1, 0] \<and> withExpiry ex_two \<and>
   (\<exists>l'. tick 6000000000 ex_two = Some l' \<and> wf l' [0] \<and> same_data ex_two l' \<and>
         \<not> Contains l' 2 \<and> cache_l l' 1 = Some 0 \<and> value_c (heap l' 0) = 10)"
proof -
  have a: "withExpiry ex_two" by (simp add: ex_two_def)
  have f: "filter (\<lambda>a. \<not> Before (ttl (heap ex_two a)) 6000000000) [1, 0] = [0]"
    by (simp add: ex_two_def Before_def)
  have v: "value_c (heap ex_two 0) = 10" "cache_l ex_two 1 = Some 0" "cache_l ex_two 2 = Some 1"
    "Before (ttl (heap ex_two 1)) 6000000000" "\<not> Before (ttl (heap ex_two 0)) 6000000000"
    by (simp_all add: ex_two_def Before_def)
  from tick_on_invariant [OF wf_ex_two a, of 6000000000] obtain l' where
    l': "tick 6000000000 ex_two = Some l'"
      "wf l' (filter (\<lambda>a. \<not> Before (ttl (heap ex_two a)) 6000000000) [1, 0])"
      "same_data ex_two l'"
      "\<forall>k. cache_l l' k =
        (case cache_l ex_two k of
           None \<Rightarrow> None
         | Some a \<Rightarrow> if Before (ttl (heap ex_two a)) 6000000000 then None else Some a)"
    by blast
  have "\<not> Contains l' 2" "cache_l l' 1 = Some 0" using l'(4) v by (simp_all add: Contains_def)
  moreover have "value_c (heap l' 0) = 10" using l'(3) v by (simp add: same_data_def)
  ultimately show ?thesis using l' f a wf_ex_two by auto
qed

lemma set_l_stores_deadline:
  assumes "set_l l k v e = Inr l1"
  shows "\<exists>c. cache_l l1 k = Some c \<and> ttl (heap l1 c) = e"
proof (cases "cache_l l k")
  case None
  with assms obtain la where "set_evict l = Inr la" "l1 = set_insert la k v e"
    by (auto simp: set_l_def split: sum.splits)
  then show ?thesis using set_insert_facts[of la k v e] by simp
next
  case (Some c)
  with assms have r: "set_resident l k c v e = Inr l1" by (simp add: set_l_def)
  show ?thesis
  proof (cases "set_unlink l c")
    case (Inl x)
    with r show ?thesis by (simp add: set_resident_def)
  next
    case (Inr la)
    with r show ?thesis
      by (auto simp: set_resident_def Let_def set_prev_def set_next_def set_value_def
          set_ttl_def)
  qed
qed

text \<open>
  Whenever \<open>Set\<close> returns, the entry of the key carries the zero deadline. On a
  cache with expiry of positive size that satisfies the invariant, \<open>Set\<close> of a key that
  is not resident returns, and the sweep of the cleaner at any time after the zero instant
  returns with the key absent.
\<close>

lemma Set_then_tick_on_invariant:
  "(Set m j u = Inr m1 \<longrightarrow> (\<exists>c. cache_l m1 j = Some c \<and> ttl (heap m1 c) = zeroTime)) \<and>
   (wf l xs \<and> withExpiry l \<and> 0 < size_l l \<and> \<not> Contains l k \<and> Before zeroTime now \<longrightarrow>
      (\<exists>l1 c l2. Set l k v = Inr l1 \<and> cache_l l1 k = Some c \<and> ttl (heap l1 c) = zeroTime \<and>
         tick now l1 = Some l2 \<and> \<not> Contains l2 k))"
proof (intro conjI impI)
  assume "Set m j u = Inr m1"
  then show "\<exists>c. cache_l m1 j = Some c \<and> ttl (heap m1 c) = zeroTime"
    using set_l_stores_deadline[of m j u zeroTime m1] by (simp add: Set_def)
next
  assume h: "wf l xs \<and> withExpiry l \<and> 0 < size_l l \<and> \<not> Contains l k \<and> Before zeroTime now"
  then have n: "cache_l l k = None" by (simp add: Contains_def split: option.splits)
  from Set_new_wf[of l xs k v zeroTime] h n obtain l1 xs1 where
    l1: "set_l l k v zeroTime = Inr l1" "wf l1 (brk l # xs1)" "cache_l l1 k = Some (brk l)"
      "ttl (heap l1 (brk l)) = zeroTime" "withExpiry l1 = withExpiry l"
    by blast
  have we: "withExpiry l1" using l1(5) h by simp
  from tick_wf[OF l1(2) we, of now] obtain l2 where
    l2: "tick now l1 = Some l2"
      "\<forall>k. cache_l l2 k =
        (case cache_l l1 k of
           None \<Rightarrow> None
         | Some a \<Rightarrow> if Before (ttl (heap l1 a)) now then None else Some a)"
    by blast
  have "\<not> Contains l2 k" using l2(2) l1(3,4) h by (simp add: Contains_def)
  with l1 l2 show "\<exists>l1 c l2. Set l k v = Inr l1 \<and> cache_l l1 k = Some c \<and>
      ttl (heap l1 c) = zeroTime \<and> tick now l1 = Some l2 \<and> \<not> Contains l2 k"
    by (auto simp: Set_def)
qed

lemma Set_then_tick_on_invariant_example:
  "(\<exists>m1. Set ex_two 1 11 = Inr m1 \<and> (\<exists>c. cache_l m1 1 = Some c \<and> ttl (heap m1 c) = zeroTime)) \<and>
   wf ex_two [1, 0] \<and> withExpiry ex_two \<and> 0 < size_l ex_two \<and> \<not> Contains ex_two 3 \<and>
   Before zeroTime 6000000000 \<and>
   (\<exists>l1 c l2. Set ex_two 3 30 = Inr l1 \<and> cache_l l1 3 = Some c \<and> ttl (heap l1 c) = zeroTime \<and>
      tick 6000000000 l1 = Some l2 \<and> \<not> Contains l2 3)"
proof -
  have a: "withExpiry ex_two" "0 < size_l ex_two" "\<not> Contains ex_two 3"
    "Before zeroTime 6000000000"
    by (simp_all add: ex_two_def Contains_def Before_def zeroTime_def)
  obtain m1 where m1: "Set ex_two 1 11 = Inr m1"
    by (simp add: lru_defs ex_two_def)
  note t = Set_then_tick_on_invariant [of ex_two 1 11 m1 ex_two "[1, 0]" 3 6000000000 30]
  show ?thesis using t m1 a wf_ex_two by simp
qed

section \<open>Deletion, lookup and the cleaner on the states the calls reach\<close>

lemma sweep_None: "sweep t None l = Some l"
  by (subst sweep.simps) simp

lemma sweep_Some:
  "sweep t (Some a) l =
     (let l1 = (if Before (ttl (heap l a)) t then fst (del l (key (heap l a))) else l)
      in sweep t (next_c (heap l1 a)) l1)"
  by (subst sweep.simps) simp

text \<open>
  C5. \<open>Del\<close> of a resident key returns true, the key is absent then, and \<open>length\<close> is
  one less; when the key was the only resident entry, head and tail are nil afterwards.
  The code breaks the last part: in a cache of capacity 1, \<open>Set(1)\<close> twice links the only
  node to itself; \<open>Del(1)\<close> then finds \<open>c.next\<close> not nil, takes the branch of the head
  of a longer list, and leaves head and tail on the node it has deleted.
\<close>

theorem del_sole_entry_keeps_head_and_tail:
  "case calls (New zero_cache 1) [CSet 1 10, CSet 1 11] of
     Inl e \<Rightarrow> False
   | Inr l \<Rightarrow>
       length_l l = 1 \<and> dom (cache_l l) = {1} \<and> cache_l l 1 = Some 0 \<and>
       snd (Del l 1) \<and> \<not> Contains (fst (Del l 1)) 1 \<and> length_l (fst (Del l 1)) = 0 \<and>
       head (fst (Del l 1)) = Some 0 \<and> tail (fst (Del l 1)) = Some 0"
  by (simp add: lru_defs zero_cache_def)

text \<open>
  C8. \<open>Get\<close> of a resident key whose deadline has passed returns the stored value with
  \<open>found\<close> true and promotes the key to the head, and \<open>Contains\<close> is true. The code
  breaks the promotion: after three \<open>SetWithExpiry\<close> with a deadline of 3 seconds and
  \<open>Get(2)\<close>, the node of key 3 keeps \<open>prev == nil\<close> behind the new head, so \<open>Get(3)\<close>
  at 4 seconds returns 30 and true from the branch of the head and changes nothing: the
  head is still the node of key 2.
\<close>

theorem get_expired_entry_not_promoted:
  "case calls (NewWithExpiry zero_cache 3)
          [CSetWithExpiry 1000000000 1 10 2000, CSetWithExpiry 1000000000 2 20 2000,
           CSetWithExpiry 1000000000 3 30 2000, CGet 2] of
     Inl e \<Rightarrow> False
   | Inr l \<Rightarrow>
       withExpiry l \<and>
       (case cache_l l 3 of
          None \<Rightarrow> False
        | Some c \<Rightarrow>
            Before (ttl (heap l c)) 4000000000 \<and> Contains l 3 \<and>
            (case Get l 3 of
               Inl e \<Rightarrow> False
             | Inr (l', r) \<Rightarrow>
                 r = Some 30 \<and> head l' \<noteq> Some c \<and> head l' = cache_l l' 2 \<and> l' = l))"
  by (simp add: lru_defs zero_cache_def wrap64_def)

text \<open>
  C9. A sweep of the cleaner at time \<open>t\<close> deletes exactly the resident entries whose
  deadline is before \<open>t\<close>. The code breaks this: after three \<open>SetWithExpiry\<close> with a
  deadline of 3 seconds, \<open>Get(2)\<close> and \<open>Del(3)\<close>, the node of key 2 is in the index and
  no longer on the list. The sweep at 6 seconds deletes key 1 and returns with key 2
  resident, its deadline passed, and with head and tail nil, so that no later sweep visits
  it. A second state (\<open>tick_never_returns\<close> below): after \<open>SetWithExpiry\<close> of one key
  twice the head is its own successor and the sweep does not return.
\<close>

theorem tick_leaves_expired_entry_resident:
  "case calls (NewWithExpiry zero_cache 3)
          [CSetWithExpiry 1000000000 1 10 2000, CSetWithExpiry 1000000000 2 20 2000,
           CSetWithExpiry 1000000000 3 30 2000, CGet 2, CDel 3] of
     Inl e \<Rightarrow> False
   | Inr l \<Rightarrow>
       withExpiry l \<and>
       (case cache_l l 2 of
          None \<Rightarrow> False
        | Some c \<Rightarrow>
            Before (ttl (heap l c)) 6000000000 \<and>
            (case tick 6000000000 l of
               None \<Rightarrow> False
             | Some l' \<Rightarrow>
                 cache_l l' 2 = Some c \<and> Contains l' 2 \<and> \<not> Contains l' 1 \<and>
                 head l' = None \<and> tail l' = None \<and> length_l l' = 1))"
  by (simp add: lru_defs zero_cache_def wrap64_def tick_def sweep_None sweep_Some)

lemma sweep_self_loop:
  assumes n: "next_c (heap l0 a) = Some a" and b: "\<not> Before (ttl (heap l0 a)) t0"
  shows "sweep t0 (Some a) l0 = None"
proof (cases "sweep t0 (Some a) l0")
  case (Some y)
  have "\<not> (t0 = t0 \<and> Some a = Some a \<and> l0 = l0)"
  proof (rule sweep.raw_induct
      [where P = "\<lambda>t h l y. \<not> (t = t0 \<and> h = Some a \<and> l = l0)" and y = y])
    show "sweep t0 (Some a) l0 = Some y" by (rule Some)
  next
    fix sw :: "time \<Rightarrow> addr option \<Rightarrow> ('a, 'b) lru \<Rightarrow> ('a, 'b) lru option"
      and t h l y'
    assume ih: "\<And>t h l y. sw t h l = Some y \<Longrightarrow> \<not> (t = t0 \<and> h = Some a \<and> l = l0)"
      and body: "(case h of
          None \<Rightarrow> Some l
        | Some a \<Rightarrow>
            (let l1 = (if Before (ttl (heap l a)) t then fst (del l (key (heap l a))) else l)
             in sw t (next_c (heap l1 a)) l1)) = Some y'"
    show "\<not> (t = t0 \<and> h = Some a \<and> l = l0)"
    proof
      assume e: "t = t0 \<and> h = Some a \<and> l = l0"
      with body n b have "sw t0 (Some a) l0 = Some y'" by simp
      from ih[OF this] show False by simp
    qed
  qed
  then show ?thesis by simp
qed simp

lemma tick_never_returns:
  "case calls (NewWithExpiry zero_cache 3)
          [CSetWithExpiry 1000000000 1 10 20000, CSetWithExpiry 1000000000 1 11 20000] of
     Inl e \<Rightarrow> False
   | Inr l \<Rightarrow> withExpiry l \<and> tick 6000000000 l = None"
proof -
  obtain l where l: "calls (NewWithExpiry zero_cache 3)
          [CSetWithExpiry 1000000000 1 10 20000, CSetWithExpiry 1000000000 1 11 20000] = Inr l"
    and f: "withExpiry l" "head l = Some 0" "next_c (heap l 0) = Some 0"
      "\<not> Before (ttl (heap l 0)) 6000000000"
    by (simp add: lru_defs zero_cache_def wrap64_def)
  have "tick 6000000000 l = None" using f sweep_self_loop[of l 0 6000000000]
    by (simp add: tick_def)
  with l f show ?thesis by simp
qed

text \<open>
  C10. An entry written by \<open>Set\<close> carries the zero deadline, and on a cache with expiry
  the first sweep after its insertion deletes it. The deadline is zero
  (\<open>set_l_stores_deadline\<close> above); the deletion fails: on a cache with expiry, after
  \<open>Set\<close> of 1, 2, 3, \<open>Get(2)\<close> and \<open>Del(3)\<close> the node of key 2 is off the list, the
  first sweep deletes key 1 alone and leaves head nil, and key 2 with its zero deadline is
  resident after this sweep and unchanged by every later one.
\<close>

theorem set_entry_survives_tick:
  "case calls (NewWithExpiry zero_cache 3) [CSet 1 10, CSet 2 20, CSet 3 30, CGet 2, CDel 3] of
     Inl e \<Rightarrow> False
   | Inr l \<Rightarrow>
       withExpiry l \<and>
       (case cache_l l 2 of
          None \<Rightarrow> False
        | Some c \<Rightarrow>
            ttl (heap l c) = zeroTime \<and> Before zeroTime 6000000000 \<and>
            (case tick 6000000000 l of
               None \<Rightarrow> False
             | Some l' \<Rightarrow>
                 cache_l l' 2 = Some c \<and> Contains l' 2 \<and> ttl (heap l' c) = zeroTime \<and>
                 head l' = None \<and> (\<forall>t. tick t l' = Some l')))"
  by (simp add: lru_defs zero_cache_def tick_def sweep_None sweep_Some)

end
